theory Spec2Isabelle
  imports Main "HOL-Library.Sublist"
begin

section \<open>Characters used by the program\<close>

definition BSL :: char where "BSL = CHR 0x5C"
definition LF :: char where "LF = CHR 0x0A"
definition CR :: char where "CR = CHR 0x0D"

lemma BSL_not_paren [simp]: "BSL \<noteq> CHR ''(''" "CHR ''('' \<noteq> BSL"
  by (simp_all add: BSL_def)

section \<open>utils.py\<close>

text \<open>
  \<^verbatim>\<open>RemoveRegexBindingGroups\<close>: the loop over the characters of the regex, with the
  local variable \<^verbatim>\<open>escaped\<close> as the first argument.  An open parenthesis seen while
  \<^verbatim>\<open>escaped\<close> is false is replaced by \<^verbatim>\<open>(?:\<close>; a backslash flips the flag and any
  other character clears it.
\<close>

fun rrbg_loop :: "bool \<Rightarrow> string \<Rightarrow> string" where
  "rrbg_loop escaped [] = []"
| "rrbg_loop escaped (ch # rest) =
     (if ch = CHR ''('' \<and> \<not> escaped then ''(?:'' else [ch])
       @ rrbg_loop (if ch = BSL then \<not> escaped else False) rest"

definition RemoveRegexBindingGroups :: "string \<Rightarrow> string" where
  "RemoveRegexBindingGroups regex = rrbg_loop False regex"
















section \<open>Exceptions\<close>

text \<open>
  The exceptions the modelled code can raise.  \<open>ReError\<close> is \<^verbatim>\<open>re.error\<close>.
  \<open>Unmodelled\<close> is not a Python exception: it is the result of the model where the
  code hands the regex library a regular expression outside the fragment modelled
  below, so that the model does not say what the code does.
\<close>

datatype py_error =
    IndexError
  | KeyError
  | TypeError
  | AssertionError string
  | ReError
  | Unmodelled

section \<open>linebuf.py\<close>

text \<open>Python's \<^verbatim>\<open>s.split(sep)\<close> for a one-character separator, and \<^verbatim>\<open>s.rstrip(ch)\<close>.\<close>

fun split_on :: "char \<Rightarrow> string \<Rightarrow> string list" where
  "split_on sep [] = [[]]"
| "split_on sep (c # cs) =
     (if c = sep then [] # split_on sep cs
      else (case split_on sep cs of
              [] \<Rightarrow> [[c]]
            | x # xs \<Rightarrow> (c # x) # xs))"

definition rstrip_chr :: "char \<Rightarrow> string \<Rightarrow> string" where
  "rstrip_chr ch s = rev (dropWhile (\<lambda>x. x = ch) (rev s))"

text \<open>
  A \<^verbatim>\<open>Buffer\<close> object: the public attribute \<^verbatim>\<open>baseline\<close> and the private list
  \<^verbatim>\<open>_lines\<close>.
\<close>

record Buffer =
  baseline :: int
  lines :: "string list"

definition Buffer_init :: Buffer where
  "Buffer_init = \<lparr>baseline = 1, lines = replicate 2 []\<rparr>"

definition GetBound :: "Buffer \<Rightarrow> int" where
  "GetBound b = baseline b + int (length (lines b)) - 1"

text \<open>
  The loop \<^verbatim>\<open>for index in range(len(lines)-1): lines[index] = lines[index].rstrip('\r')\<close>.
\<close>

definition strip_completed :: "string list \<Rightarrow> string list" where
  "strip_completed ls =
     fold (\<lambda>index ls'. ls'[index := rstrip_chr CR (ls' ! index)]) [0 ..< length ls - 1] ls"

text \<open>
  \<^verbatim>\<open>AppendRawData\<close>.  \<^verbatim>\<open>self._lines[-1]\<close> raises IndexError on an empty list; on a
  non-empty list the slice assignment \<^verbatim>\<open>self._lines[-1:] = lines\<close> replaces the last
  element by the new lines.
\<close>

definition AppendRawData :: "Buffer \<Rightarrow> string \<Rightarrow> py_error + Buffer" where
  "AppendRawData b content =
     (if lines b = [] then Inl IndexError
      else Inr (b\<lparr>lines := butlast (lines b)
                    @ strip_completed (split_on LF (last (lines b) @ content))\<rparr>))"

definition UpdateBaseline :: "Buffer \<Rightarrow> int \<Rightarrow> py_error + Buffer" where
  "UpdateBaseline b new_baseline =
     (if \<not> new_baseline \<ge> baseline b then Inl (AssertionError ''new_baseline < self.baseline'')
      else if \<not> new_baseline \<le> GetBound b
        then Inl (AssertionError ''new_baseline > self.GetBound()'')
      else Inr \<lparr>baseline = new_baseline,
                lines = drop (nat (new_baseline - baseline b)) (lines b)\<rparr>)"

definition GetLine :: "Buffer \<Rightarrow> int \<Rightarrow> py_error + string" where
  "GetLine b lineno =
     (if \<not> lineno \<ge> baseline b then Inl (AssertionError ''lineno < self.baseline'')
      else if \<not> lineno < GetBound b then Inl (AssertionError ''lineno >= self.GetBound()'')
      else Inr (lines b ! nat (lineno - baseline b + 1)))"

text \<open>Feeding a sequence of fragments, one call of \<^verbatim>\<open>AppendRawData\<close> each.\<close>

fun feed :: "Buffer \<Rightarrow> string list \<Rightarrow> py_error + Buffer" where
  "feed b [] = Inr b"
| "feed b (fragment # rest) =
     (case AppendRawData b fragment of
        Inl e \<Rightarrow> Inl e
      | Inr b' \<Rightarrow> feed b' rest)"

text \<open>
  The completed lines of a buffer, read through \<^verbatim>\<open>GetLine\<close>: those numbered from
  \<^verbatim>\<open>baseline\<close> up to, and not including, the partial line \<^verbatim>\<open>GetBound()-1\<close>.
\<close>

definition completed_lines :: "Buffer \<Rightarrow> (py_error + string) list" where
  "completed_lines b = map (GetLine b) [baseline b .. GetBound b - 2]"

definition partial_line :: "Buffer \<Rightarrow> py_error + string" where
  "partial_line b = GetLine b (GetBound b - 1)"

text \<open>
  Splitting on the regular expression \<^verbatim>\<open>\r*\n\<close>, as \<^verbatim>\<open>re.split\<close> does it (the
  repository's test \<^verbatim>\<open>testFragmentation\<close> computes its expected output this way).
  \<open>match_crs_nl\<close> matches the expression at the start of a string and returns
  the rest; \<open>re_split_crs_nl\<close> scans for the leftmost match, cuts there and goes on
  behind the match.  The first argument holds, reversed, the characters passed since
  the last cut.
\<close>

fun match_crs_nl :: "string \<Rightarrow> string option" where
  "match_crs_nl [] = None"
| "match_crs_nl (c # cs) =
     (if c = LF then Some cs else if c = CR then match_crs_nl cs else None)"

lemma match_crs_nl_shorter: "match_crs_nl s = Some r \<Longrightarrow> length r < length s"
  by (induction s) (auto split: if_splits)

function re_split_crs_nl :: "string \<Rightarrow> string \<Rightarrow> string list" where
  "re_split_crs_nl acc s =
     (if s = [] then [rev acc]
      else (case match_crs_nl s of
              Some rest \<Rightarrow> rev acc # re_split_crs_nl [] rest
            | None \<Rightarrow> re_split_crs_nl (hd s # acc) (tl s)))"
  by pat_completeness auto
termination
  by (relation "measure (\<lambda>(acc, s). length s)") (auto dest: match_crs_nl_shorter)

declare re_split_crs_nl.simps [simp del]

lemma CR_not_LF [simp]: "CR \<noteq> LF" "LF \<noteq> CR"
  by (simp_all add: CR_def LF_def)

lemma split_on_nonempty [simp]: "split_on sep s \<noteq> []"
  by (induction s) (auto split: list.splits)

lemma split_on_last_no_sep: "sep \<notin> set (last (split_on sep s))"
  by (induction s) (auto split: list.splits)

lemma split_on_length: "length (split_on sep s) = count_list s sep + 1"
  by (induction s) (auto split: list.splits)

lemma split_on_no_sep: "sep \<notin> set s \<Longrightarrow> split_on sep s = [s]"
  by (induction s) auto

lemma split_on_first: "sep \<notin> set a \<Longrightarrow> split_on sep (a @ sep # rest) = a # split_on sep rest"
  by (induction a) auto

lemma split_on_append:
  "split_on sep (s @ t) = butlast (split_on sep s) @ split_on sep (last (split_on sep s) @ t)"
proof (induction s)
  case Nil
  then show ?case by simp
next
  case (Cons c s)
  show ?case
  proof (cases "c = sep")
    case True
    then show ?thesis using Cons by simp
  next
    case False
    obtain x xs where x: "split_on sep s = x # xs"
      by (cases "split_on sep s") auto
    show ?thesis
    proof (cases xs)
      case Nil
      with x False Cons show ?thesis by (simp split: list.splits)
    next
      case (Cons y ys)
      with x False Cons.IH show ?thesis by (simp split: list.splits)
    qed
  qed
qed

lemma fold_update_prefix:
  "n \<le> length ls \<Longrightarrow>
   fold (\<lambda>index ls'. ls'[index := f (ls' ! index)]) [0 ..< n] ls = map f (take n ls) @ drop n ls"
proof (induction n)
  case 0
  then show ?case by simp
next
  case (Suc n)
  then have n: "n < length ls" by simp
  have "(map f (take n ls) @ drop n ls)[n := f ((map f (take n ls) @ drop n ls) ! n)]
        = map f (take (Suc n) ls) @ drop (Suc n) ls"
    using n by (simp add: list_update_append nth_append take_Suc_conv_app_nth
        Cons_nth_drop_Suc [symmetric] del: Cons_nth_drop_Suc)
  with Suc show ?case by simp
qed

lemma strip_completed_eq:
  assumes "ls \<noteq> []"
  shows "strip_completed ls = map (rstrip_chr CR) (butlast ls) @ [last ls]"
proof -
  from assms obtain xs x where ls: "ls = xs @ [x]"
    by (metis append_butlast_last_id)
  show ?thesis
    unfolding strip_completed_def by (simp add: fold_update_prefix ls)
qed


lemma strip_completed_split_nonempty [simp]: "strip_completed (split_on sep s) \<noteq> []"
  by (simp add: strip_completed_eq)

lemma strip_completed_split_append:
  "strip_completed (split_on sep (s @ t)) =
     butlast (strip_completed (split_on sep s))
       @ strip_completed (split_on sep (last (strip_completed (split_on sep s)) @ t))"
proof -
  let ?A = "butlast (split_on sep s)"
  let ?B = "split_on sep (last (split_on sep s) @ t)"
  have "strip_completed (split_on sep (s @ t)) = strip_completed (?A @ ?B)"
    by (simp add: split_on_append [symmetric])
  also have "\<dots> = map (rstrip_chr CR) ?A @ strip_completed ?B"
    by (simp add: strip_completed_eq butlast_append)
  finally show ?thesis by (simp add: strip_completed_eq)
qed

lemma AppendRawData_lines:
  assumes "lines b = pre @ strip_completed (split_on LF s)"
  shows "AppendRawData b c = Inr (b\<lparr>lines := pre @ strip_completed (split_on LF (s @ c))\<rparr>)"
proof -
  have ne: "lines b \<noteq> []" using assms by simp
  have l: "last (lines b) = last (strip_completed (split_on LF s))"
    using assms by simp
  have bl: "butlast (lines b) = pre @ butlast (strip_completed (split_on LF s))"
    using assms by (simp add: butlast_append)
  show ?thesis
    unfolding AppendRawData_def using ne
    by (simp add: l bl strip_completed_split_append [of LF s c])
qed

lemma feed_lines:
  "lines b = pre @ strip_completed (split_on LF s) \<Longrightarrow>
   feed b fs = Inr (b\<lparr>lines := pre @ strip_completed (split_on LF (s @ concat fs))\<rparr>)"
proof (induction fs arbitrary: b s)
  case Nil
  then show ?case by simp
next
  case (Cons f fs)
  let ?b' = "b\<lparr>lines := pre @ strip_completed (split_on LF (s @ f))\<rparr>"
  have "AppendRawData b f = Inr ?b'" by (rule AppendRawData_lines [OF Cons.prems])
  moreover have "feed ?b' fs = Inr (?b'\<lparr>lines := pre @ strip_completed (split_on LF ((s @ f) @ concat fs))\<rparr>)"
    by (rule Cons.IH) simp
  ultimately show ?case by simp
qed

lemma feed_fresh:
  "feed Buffer_init fs =
     Inr \<lparr>baseline = 1, lines = [] # strip_completed (split_on LF (concat fs))\<rparr>"
proof -
  have "lines Buffer_init = [[]] @ strip_completed (split_on LF [])"
    by (simp add: Buffer_init_def strip_completed_eq numeral_2_eq_2)
  from feed_lines [OF this, of fs] show ?thesis
    by (simp add: Buffer_init_def)
qed

lemma match_crs_nl_fail:
  "LF \<notin> set x \<Longrightarrow> x \<noteq> [] \<Longrightarrow> last x \<noteq> CR \<Longrightarrow> match_crs_nl (x @ y) = None"
  by (induction x) (auto split: if_splits)

lemma match_crs_nl_run: "match_crs_nl (replicate k CR @ LF # rest) = Some rest"
  by (induction k) (auto simp: CR_def LF_def)

lemma re_split_cut:
  "LF \<notin> set x \<Longrightarrow> x = [] \<or> last x \<noteq> CR \<Longrightarrow>
   re_split_crs_nl acc (x @ replicate k CR @ LF # rest) = (rev acc @ x) # re_split_crs_nl [] rest"
proof (induction x arbitrary: acc)
  case Nil
  show ?case
    by (subst re_split_crs_nl.simps) (simp add: match_crs_nl_run)
next
  case (Cons c x)
  have "match_crs_nl ((c # x) @ replicate k CR @ LF # rest) = None"
    using Cons.prems by (intro match_crs_nl_fail) auto
  moreover have "x = [] \<or> last x \<noteq> CR" using Cons.prems by (auto split: if_splits)
  moreover have "LF \<notin> set x" using Cons.prems by simp
  ultimately show ?case
    using Cons.IH [of "c # acc"] by (subst re_split_crs_nl.simps) simp
qed

lemma match_crs_nl_no_nl: "LF \<notin> set s \<Longrightarrow> match_crs_nl s = None"
  by (induction s) auto

lemma re_split_no_nl:
  "LF \<notin> set s \<Longrightarrow> re_split_crs_nl acc s = [rev acc @ s]"
proof (induction s arbitrary: acc)
  case Nil
  show ?case by (subst re_split_crs_nl.simps) simp
next
  case (Cons c s)
  have "match_crs_nl (c # s) = None"
    using Cons.prems by (intro match_crs_nl_no_nl)
  then show ?case using Cons by (subst re_split_crs_nl.simps) simp
qed

lemma rstrip_decompose:
  "\<exists>k. a = rstrip_chr ch a @ replicate k ch \<and> (rstrip_chr ch a = [] \<or> last (rstrip_chr ch a) \<noteq> ch)"
proof -
  have "rev a = takeWhile (\<lambda>x. x = ch) (rev a) @ dropWhile (\<lambda>x. x = ch) (rev a)" by simp
  moreover have "takeWhile (\<lambda>x. x = ch) (rev a) = replicate (length (takeWhile (\<lambda>x. x = ch) (rev a))) ch"
    by (metis (mono_tags, lifting) replicate_eqI set_takeWhileD)
  ultimately have "a = rstrip_chr ch a @ replicate (length (takeWhile (\<lambda>x. x = ch) (rev a))) ch"
    unfolding rstrip_chr_def by (metis rev_append rev_replicate rev_rev_ident)
  moreover have "rstrip_chr ch a = [] \<or> last (rstrip_chr ch a) \<noteq> ch"
    unfolding rstrip_chr_def
    by (metis (mono_tags, lifting) hd_dropWhile last_rev rev_is_Nil_conv)
  ultimately show ?thesis by blast
qed

lemma re_split_eq: "re_split_crs_nl [] s = strip_completed (split_on LF s)"
proof (induction s rule: length_induct)
  case (1 s)
  show ?case
  proof (cases "LF \<in> set s")
    case False
    then show ?thesis by (simp add: re_split_no_nl split_on_no_sep strip_completed_eq)
  next
    case True
    then obtain a rest where s: "s = a @ LF # rest" and a: "LF \<notin> set a"
      by (meson split_list_first)
    obtain k where k: "a = rstrip_chr CR a @ replicate k CR"
      and l: "rstrip_chr CR a = [] \<or> last (rstrip_chr CR a) \<noteq> CR"
      using rstrip_decompose by blast
    have "LF \<notin> set (rstrip_chr CR a)" using a k by (metis Un_iff set_append)
    from re_split_cut [OF this l, of "[]" k rest]
    have "re_split_crs_nl [] ((rstrip_chr CR a @ replicate k CR) @ LF # rest)
            = rstrip_chr CR a # re_split_crs_nl [] rest"
      by simp
    then have "re_split_crs_nl [] s = rstrip_chr CR a # re_split_crs_nl [] rest"
      unfolding s using k by metis
    moreover have "re_split_crs_nl [] rest = strip_completed (split_on LF rest)"
      using 1 s by simp
    ultimately show ?thesis
      using s a by (simp add: split_on_first strip_completed_eq)
  qed
qed


lemma completed_lines_fresh:
  assumes "P \<noteq> []"
  shows "completed_lines \<lparr>baseline = 1, lines = [] # P\<rparr> = map Inr (butlast P)"
proof (rule nth_equalityI)
  show "length (completed_lines \<lparr>baseline = 1, lines = [] # P\<rparr>) = length (map Inr (butlast P))"
    using assms by (simp add: completed_lines_def GetBound_def)
next
  fix i assume "i < length (completed_lines \<lparr>baseline = 1, lines = [] # P\<rparr>)"
  then have i: "i < length P - 1"
    by (simp add: completed_lines_def GetBound_def)
  then have "[1 .. int (length P) - 1] ! i = 1 + int i"
    by (simp add: nth_upto)
  with i show "completed_lines \<lparr>baseline = 1, lines = [] # P\<rparr> ! i = map Inr (butlast P) ! i"
    by (simp add: completed_lines_def GetBound_def GetLine_def nat_add_distrib nth_butlast)
qed

lemma partial_line_fresh:
  assumes "P \<noteq> []"
  shows "partial_line \<lparr>baseline = 1, lines = [] # P\<rparr> = Inr (last P)"
proof -
  from assms obtain xs x where P: "P = xs @ [x]"
    by (metis append_butlast_last_id)
  show ?thesis
    by (simp add: P partial_line_def GetBound_def GetLine_def nat_add_distrib nth_append)
qed

text \<open>
  Claim C2.  Feeding any sequence of fragments into a fresh buffer succeeds; the
  completed lines of the resulting buffer are the pieces of the concatenated input
  split on \<^verbatim>\<open>\r*\n\<close>, without the last piece, and the last piece is the partial
  line.  The resulting buffer is the same for every other fragmentation of the same
  input.
\<close>

theorem AppendRawData_fragmentation:
  "\<exists>b. feed Buffer_init fragments = Inr b
     \<and> completed_lines b = map Inr (butlast (re_split_crs_nl [] (concat fragments)))
     \<and> partial_line b = Inr (last (re_split_crs_nl [] (concat fragments)))
     \<and> (\<forall>other. concat other = concat fragments \<longrightarrow> feed Buffer_init other = Inr b)"
  by (simp add: feed_fresh re_split_eq completed_lines_fresh partial_line_fresh)

text \<open>
  The theorem at the input \<^verbatim>\<open>a\r\nb\<close>, cut between the carriage return and the
  line feed, and uncut.
\<close>

theorem AppendRawData_fragmentation_witness:
  "\<exists>b. feed Buffer_init [[CHR ''a'', CR], [LF, CHR ''b'']] = Inr b
     \<and> completed_lines b = [Inr ''a'']
     \<and> partial_line b = Inr ''b''
     \<and> feed Buffer_init [[CHR ''a'', CR, LF, CHR ''b'']] = Inr b"
proof -
  have split: "re_split_crs_nl [] [CHR ''a'', CR, LF, CHR ''b''] = [''a'', ''b'']"
    by (simp add: re_split_crs_nl.simps CR_def LF_def)
  from AppendRawData_fragmentation [of "[[CHR ''a'', CR], [LF, CHR ''b'']]"]
  obtain b where b: "feed Buffer_init [[CHR ''a'', CR], [LF, CHR ''b'']] = Inr b"
    "completed_lines b = map Inr (butlast (re_split_crs_nl [] (concat [[CHR ''a'', CR], [LF, CHR ''b'']])))"
    "partial_line b = Inr (last (re_split_crs_nl [] (concat [[CHR ''a'', CR], [LF, CHR ''b'']])))"
    "\<forall>other. concat other = concat [[CHR ''a'', CR], [LF, CHR ''b'']] \<longrightarrow> feed Buffer_init other = Inr b"
    by blast
  have "concat [[CHR ''a'', CR, LF, CHR ''b'']] = concat [[CHR ''a'', CR], [LF, CHR ''b'']]"
    by simp
  with b(4) have "feed Buffer_init [[CHR ''a'', CR, LF, CHR ''b'']] = Inr b"
    by blast
  with b(1,2,3) split show ?thesis by simp
qed

text \<open>
  The buffers a program can hold: a fresh one, and every buffer that a successful
  call of \<^verbatim>\<open>AppendRawData\<close> or \<^verbatim>\<open>UpdateBaseline\<close> leaves behind.
\<close>

inductive Buffer_reachable :: "Buffer \<Rightarrow> bool" where
  fresh: "Buffer_reachable Buffer_init"
| append: "Buffer_reachable b \<Longrightarrow> AppendRawData b content = Inr b' \<Longrightarrow> Buffer_reachable b'"
| update: "Buffer_reachable b \<Longrightarrow> UpdateBaseline b new_baseline = Inr b' \<Longrightarrow> Buffer_reachable b'"

lemma strip_completed_last: "ls \<noteq> [] \<Longrightarrow> last (strip_completed ls) = last ls"
  by (simp add: strip_completed_eq)

lemma strip_completed_length: "ls \<noteq> [] \<Longrightarrow> length (strip_completed ls) = length ls"
  by (simp add: strip_completed_eq)

lemma Buffer_reachable_invariant:
  "Buffer_reachable b \<Longrightarrow> lines b \<noteq> [] \<and> LF \<notin> set (last (lines b))"
proof (induction rule: Buffer_reachable.induct)
  case fresh
  show ?case by (simp add: Buffer_init_def numeral_2_eq_2)
next
  case (append b content b')
  then show ?case
    by (auto simp: AppendRawData_def strip_completed_last split_on_last_no_sep split: if_splits)
next
  case (update b new_baseline b')
  then have n: "nat (new_baseline - baseline b) < length (lines b)"
    and b': "lines b' = drop (nat (new_baseline - baseline b)) (lines b)"
    by (auto simp: UpdateBaseline_def GetBound_def split: if_splits)
  with update.IH show ?case by simp
qed

lemma count_list_append_no: "x \<notin> set a \<Longrightarrow> count_list (a @ b) x = count_list b x"
  by (induction a) auto

text \<open>
  Claim C9.  On every reachable buffer \<^verbatim>\<open>AppendRawData\<close> succeeds, leaves
  \<^verbatim>\<open>baseline\<close> unchanged, raises \<^verbatim>\<open>GetBound()\<close> by the number of line feeds in the
  chunk, and every completed line (numbered from \<^verbatim>\<open>baseline\<close> up to, not including,
  the old \<^verbatim>\<open>GetBound()-1\<close>) is still returned by \<^verbatim>\<open>GetLine\<close>, with the same content.
\<close>

theorem AppendRawData_frame:
  assumes "Buffer_reachable b"
  shows "\<exists>b'. AppendRawData b chunk = Inr b'
           \<and> baseline b' = baseline b
           \<and> GetBound b' = GetBound b + int (count_list chunk LF)
           \<and> (\<forall>k. baseline b \<le> k \<and> k < GetBound b - 1 \<longrightarrow>
                 (\<exists>l. GetLine b k = Inr l \<and> GetLine b' k = Inr l))"
proof -
  from Buffer_reachable_invariant [OF assms]
  have ne: "lines b \<noteq> []" and nl: "LF \<notin> set (last (lines b))" by simp_all
  let ?new = "strip_completed (split_on LF (last (lines b) @ chunk))"
  let ?b' = "b\<lparr>lines := butlast (lines b) @ ?new\<rparr>"
  have app: "AppendRawData b chunk = Inr ?b'"
    using ne by (simp add: AppendRawData_def)
  have len: "length ?new = count_list chunk LF + 1"
    using nl by (simp add: strip_completed_length split_on_length count_list_append_no)
  from ne obtain pre tail where pt: "lines b = pre @ [tail]"
    by (metis append_butlast_last_id)
  have bound: "GetBound ?b' = GetBound b + int (count_list chunk LF)"
    using len by (simp add: GetBound_def pt)
  have frame: "\<exists>l. GetLine b k = Inr l \<and> GetLine ?b' k = Inr l"
    if k: "baseline b \<le> k \<and> k < GetBound b - 1" for k
  proof -
    from k have i: "nat (k - baseline b + 1) < length (butlast (lines b))"
      by (simp add: GetBound_def) linarith
    have "k < GetBound ?b'" using k bound by simp
    moreover have "(butlast (lines b) @ ?new) ! nat (k - baseline b + 1)
                     = lines b ! nat (k - baseline b + 1)"
      using i by (simp add: nth_append nth_butlast)
    ultimately show ?thesis
      using k by (simp add: GetLine_def)
  qed
  show ?thesis
    using app bound frame by (intro exI [of _ ?b']) simp
qed
text \<open>
  The theorem on the buffer that holds \<^verbatim>\<open>x\ny\<close>, with the chunk \<^verbatim>\<open>z\n\<close>: line 1 is
  \<^verbatim>\<open>x\<close> before and after, and the bound goes from 3 to 4.
\<close>

theorem AppendRawData_frame_witness:
  "\<exists>b b'. Buffer_reachable b \<and> AppendRawData b [CHR ''z'', LF] = Inr b'
      \<and> baseline b = 1 \<and> baseline b' = 1 \<and> GetBound b = 3 \<and> GetBound b' = 4
      \<and> GetLine b 1 = Inr ''x'' \<and> GetLine b' 1 = Inr ''x''"
proof -
  let ?b = "\<lparr>baseline = 1, lines = [[], ''x'', ''y'']\<rparr>"
  have app: "AppendRawData Buffer_init [CHR ''x'', LF, CHR ''y''] = Inr ?b"
    by (simp add: AppendRawData_def Buffer_init_def strip_completed_eq numeral_2_eq_2
        rstrip_chr_def CR_def LF_def)
  have r: "Buffer_reachable ?b"
    by (rule Buffer_reachable.append [OF Buffer_reachable.fresh app])
  have cnt: "count_list [CHR ''z'', LF] LF = 1" by (simp add: LF_def)
  have b: "baseline ?b = 1" "GetBound ?b = 3" "GetLine ?b 1 = Inr ''x''"
    by (simp_all add: GetBound_def GetLine_def)
  from AppendRawData_frame [OF r, of "[CHR ''z'', LF]"]
  obtain b' where b': "AppendRawData ?b [CHR ''z'', LF] = Inr b'"
    "baseline b' = baseline ?b"
    "GetBound b' = GetBound ?b + int (count_list [CHR ''z'', LF] LF)"
    "\<forall>k. baseline ?b \<le> k \<and> k < GetBound ?b - 1 \<longrightarrow>
        (\<exists>l. GetLine ?b k = Inr l \<and> GetLine b' k = Inr l)"
    by blast
  from b'(4) b have "GetLine b' 1 = Inr ''x''" by fastforce
  with r b b' cnt show ?thesis
    by (intro exI [of _ ?b] exI [of _ b']) simp
qed

section \<open>The regular expressions of Python's \<^verbatim>\<open>re\<close> module that the program uses\<close>

text \<open>
  Ashier is a Python 2 program: its strings are byte strings, and it compiles its
  regular expressions without flags.  The character classes below are those of
  \<^verbatim>\<open>\s\<close>, \<^verbatim>\<open>\w\<close>, \<^verbatim>\<open>str.isspace\<close> and \<^verbatim>\<open>re.escape\<close> on byte strings.
\<close>

definition is_space :: "char \<Rightarrow> bool" where
  "is_space c \<longleftrightarrow> c \<in> {CHR 0x20, CHR 0x09, CHR 0x0A, CHR 0x0B, CHR 0x0C, CHR 0x0D}"



text \<open>
  The fragment of the regular expression syntax that is modelled: literal
  characters, a backslash before a non-alphanumeric character, \<^verbatim>\<open>\s\<close>, the dot,
  bracketed character classes without ranges, the greedy quantifiers \<^verbatim>\<open>+\<close>,
  \<^verbatim>\<open>*\<close> and \<^verbatim>\<open>?\<close> on a single character, capturing groups \<^verbatim>\<open>(...)\<close>,
  non-capturing groups \<^verbatim>\<open>(?:...)\<close> and the anchor \<^verbatim>\<open>$\<close>.  Everything the program
  itself writes into a pattern (see \<^verbatim>\<open>InferSkip\<close> and \<^verbatim>\<open>InferRegex\<close> below) is in this
  fragment, with one exception: the escape \<^verbatim>\<open>\000\<close> of a NUL byte.
\<close>

datatype cls_item = CChar char | CSpace

datatype atom = Chr char | Dot | Cls bool "cls_item list"

datatype quant = Once | Plus | Star | Opt

datatype rx_item = Atom atom quant | Group bool "rx_item list" | Eol

fun cls_item_ok :: "cls_item \<Rightarrow> char \<Rightarrow> bool" where
  "cls_item_ok (CChar d) c = (c = d)"
| "cls_item_ok CSpace c = is_space c"

text \<open>
  Which characters an atom matches.  The dot matches everything but a line feed;
  the flag of a class says whether it is negated (\<^verbatim>\<open>[^...]\<close>).
\<close>

fun atom_ok :: "atom \<Rightarrow> char \<Rightarrow> bool" where
  "atom_ok (Chr d) c = (c = d)"
| "atom_ok Dot c = (c \<noteq> LF)"
| "atom_ok (Cls negated items) c = ((\<exists>i \<in> set items. cls_item_ok i c) \<noteq> negated)"

subsection \<open>Compiling\<close>









subsection \<open>Matching\<close>

text \<open>
  A backtracking matcher as a list of successes: every way in which the items match
  a prefix of the text, in the order in which the library tries them (a greedy
  quantifier tries the longest repetition first).  A success is the list of the
  captured groups, in the order of their opening parentheses, and the rest of the
  text.  The anchor \<^verbatim>\<open>$\<close> matches at the end of the text and before a line feed
  that ends the text.
\<close>

definition reps :: "atom \<Rightarrow> string \<Rightarrow> nat" where
  "reps a s = length (takeWhile (atom_ok a) s)"

definition match_atom :: "atom \<Rightarrow> quant \<Rightarrow> string \<Rightarrow> string list" where
  "match_atom a q s =
     (case q of
        Once \<Rightarrow> (if s \<noteq> [] \<and> atom_ok a (hd s) then [tl s] else [])
      | Plus \<Rightarrow> map (\<lambda>k. drop k s) (rev [1 ..< reps a s + 1])
      | Star \<Rightarrow> map (\<lambda>k. drop k s) (rev [0 ..< reps a s + 1])
      | Opt \<Rightarrow> map (\<lambda>k. drop k s) (rev [0 ..< min 1 (reps a s) + 1]))"

fun match_item :: "rx_item \<Rightarrow> string \<Rightarrow> (string list \<times> string) list"
  and match_items :: "rx_item list \<Rightarrow> string \<Rightarrow> (string list \<times> string) list" where
  "match_item (Atom a q) s = map (\<lambda>r. ([], r)) (match_atom a q s)"
| "match_item (Group capturing items) s =
     map (\<lambda>(caps, r). ((if capturing then [take (length s - length r) s] else []) @ caps, r))
         (match_items items s)"
| "match_item Eol s = (if s = [] \<or> s = [LF] then [([], s)] else [])"
| "match_items [] s = [([], s)]"
| "match_items (item # items) s =
     concat (map (\<lambda>(caps1, r1). map (\<lambda>(caps2, r2). (caps1 @ caps2, r2)) (match_items items r1))
                 (match_item item s))"


section \<open>directive.py\<close>

subsection \<open>Error reports\<close>

text \<open>
  \<^verbatim>\<open>utils.ReportError\<close> appends to the module's list \<^verbatim>\<open>_error_messages\<close>; the list
  is passed along explicitly.
\<close>

definition ReportError :: "string \<Rightarrow> string list \<Rightarrow> string list" where
  "ReportError mesg error_messages = error_messages @ [''Error: '' @ mesg]"




subsection \<open>Lines\<close>

record Line =
  lineno :: int
  content :: string
  header :: string





definition WithIdentHeader :: "Line \<Rightarrow> string \<Rightarrow> string" where
  "WithIdentHeader l mesg = header l @ mesg"

definition Line_ReportError :: "Line \<Rightarrow> string \<Rightarrow> string list \<Rightarrow> string list" where
  "Line_ReportError l mesg error_messages = ReportError (WithIdentHeader l mesg) error_messages"

subsection \<open>Directives\<close>


record Marker =
  m_line :: Line
  start :: nat
  finish :: nat
  name :: "string option"
  m_regex :: string

record Send =
  s_line :: Line
  channel :: string
  message :: string



definition Marker_init :: "Line \<Rightarrow> nat \<Rightarrow> nat \<Rightarrow> string option \<Rightarrow> string \<Rightarrow> Marker" where
  "Marker_init l i j nm rx =
     \<lparr>m_line = l, start = i, finish = j, name = nm, m_regex = RemoveRegexBindingGroups rx\<rparr>"

definition Send_init :: "Line \<Rightarrow> string \<Rightarrow> string \<Rightarrow> string list \<Rightarrow> Send \<times> string list" where
  "Send_init l ch msg error_messages =
     (\<lparr>s_line = l, channel = ch, message = msg\<rparr>,
      if ch \<noteq> ''controller'' \<and> ch \<noteq> ''terminal''
      then Line_ReportError l (''invalid channel name: '' @ ch) error_messages
      else error_messages)"


subsection \<open>\<^verbatim>\<open>Template.InferSkip\<close>\<close>





subsection \<open>\<^verbatim>\<open>Marker.InferRegex\<close>\<close>



subsection \<open>\<^verbatim>\<open>Send\<close>\<close>








section \<open>reactive.py\<close>

subsection \<open>\<^verbatim>\<open>Pattern\<close>\<close>

text \<open>
  A \<^verbatim>\<open>Pattern\<close> object: the regex source \<^verbatim>\<open>pattern\<close>, the names of its groups and
  the compiled regex \<^verbatim>\<open>_regex\<close>.
\<close>

record Pattern =
  pattern :: string
  bound_names :: "string option list"
  p_regex :: "rx_item list"








subsection \<open>\<^verbatim>\<open>Reactive\<close>\<close>

text \<open>
  A \<^verbatim>\<open>Reactive\<close> object: the attributes \<^verbatim>\<open>_nesting\<close>, \<^verbatim>\<open>_patterns\<close> and
  \<^verbatim>\<open>_actions\<close>.  An entry of a nesting list is a pair of an indentation and a line
  number.
\<close>

record Reactive =
  r_nesting :: "(int \<times> int) list"
  patterns :: "Pattern list"
  actions :: "Send list"
















definition PatternSize :: "Reactive \<Rightarrow> int" where
  "PatternSize r = int (length (patterns r))"

subsection \<open>\<^verbatim>\<open>Reactive.React\<close>\<close>






section \<open>Claims about \<^verbatim>\<open>React\<close>\<close>


























end
